theory Spec2Isabelle
  imports Complex_Main
begin

section \<open>NoteFlow playback engine\<close>

text \<open>
  A shallow embedding of the playback engine of NoteFlow: the polyphonic tone
  synthesizer (class \<open>AudioEngine\<close>), the frame scheduler and the canvas renderer of the
  \<open>MusicPlayer\<close> component, and the ingestion path (\<open>analyzeSheetMusic\<close>,
  \<open>App.handleFilesSelect\<close>).

  Modelling conventions.
  \<^item> JavaScript numbers are modelled as mathematical reals: IEEE rounding, \<open>NaN\<close> and
    \<open>Infinity\<close> are not represented. Where the source divides, the theorems carry the
    hypotheses under which the divisor is not zero, so that HOL's \<open>x / 0 = 0\<close> is never
    what a statement rests on.
  \<^item> Strings are lists of 8-bit characters; \<open>toLowerCase\<close> and \<open>toUpperCase\<close> are the
    ASCII case mappings.
  \<^item> React state, refs and the browser's timer table are fields of one explicit state
    record; an event handler is a function from state to state.
\<close>

subsection \<open>Strings: case mapping, substring search, the pitch pattern\<close>

definition isUpperChar :: "char \<Rightarrow> bool" where
  "isUpperChar c = (65 \<le> (of_char c :: nat) \<and> (of_char c :: nat) \<le> 90)"

definition isLowerChar :: "char \<Rightarrow> bool" where
  "isLowerChar c = (97 \<le> (of_char c :: nat) \<and> (of_char c :: nat) \<le> 122)"

definition isDigitChar :: "char \<Rightarrow> bool" where
  "isDigitChar c = (48 \<le> (of_char c :: nat) \<and> (of_char c :: nat) \<le> 57)"

definition toLowerChar :: "char \<Rightarrow> char" where
  "toLowerChar c = (if isUpperChar c then char_of ((of_char c :: nat) + 32) else c)"

definition toUpperChar :: "char \<Rightarrow> char" where
  "toUpperChar c = (if isLowerChar c then char_of ((of_char c :: nat) - 32) else c)"

definition toLowerCase :: "string \<Rightarrow> string" where
  "toLowerCase s = map toLowerChar s"

definition toUpperCase :: "string \<Rightarrow> string" where
  "toUpperCase s = map toUpperChar s"

text \<open>
  \<open>String.prototype.includes\<close>, a search for the pattern at every position of the
  string (named \<open>includes_str\<close>, \<open>includes\<close> being a keyword of Isabelle).
\<close>

fun startsWith :: "string \<Rightarrow> string \<Rightarrow> bool" where
  "startsWith s [] = True"
| "startsWith [] (p # ps) = False"
| "startsWith (c # cs) (p # ps) = (c = p \<and> startsWith cs ps)"

fun includes_str :: "string \<Rightarrow> string \<Rightarrow> bool" where
  "includes_str [] p = (p = [])"
| "includes_str (c # cs) p = (startsWith (c # cs) p \<or> includes_str cs p)"

text \<open>
  The character class \<open>[a-zA-Z#]\<close> of the pattern \<open>/^([a-zA-Z#]+)(\d+)$/\<close>. The class and
  \<open>\d\<close> are disjoint, so the only split the pattern can accept is the longest prefix of
  class characters followed by a non-empty rest made of digits only.
\<close>

definition isNoteChar :: "char \<Rightarrow> bool" where
  "isNoteChar c = (isLowerChar c \<or> isUpperChar c \<or> c = CHR ''#'')"

definition matchPitch :: "string \<Rightarrow> (string \<times> string) option" where
  "matchPitch pitch =
     (let name = takeWhile isNoteChar pitch;
          digits = dropWhile isNoteChar pitch
      in if name \<noteq> [] \<and> digits \<noteq> [] \<and> list_all isDigitChar digits
         then Some (name, digits) else None)"

text \<open>\<open>parseInt\<close> on a string of decimal digits.\<close>

definition digitValue :: "char \<Rightarrow> nat" where
  "digitValue c = (of_char c :: nat) - 48"

definition parseInt :: "string \<Rightarrow> nat" where
  "parseInt ds = foldl (\<lambda>acc c. 10 * acc + digitValue c) 0 ds"

text \<open>\<open>Array.prototype.indexOf\<close>: the first position of the element, or \<open>-1\<close>.\<close>

fun indexOfFrom :: "'a list \<Rightarrow> 'a \<Rightarrow> int \<Rightarrow> int" where
  "indexOfFrom [] x i = -1"
| "indexOfFrom (y # ys) x i = (if y = x then i else indexOfFrom ys x (i + 1))"

definition indexOf :: "'a list \<Rightarrow> 'a \<Rightarrow> int" where
  "indexOf xs x = indexOfFrom xs x 0"

subsection \<open>The tone synthesizer\<close>

text \<open>The array \<open>notes\<close> of \<open>playTone\<close>.\<close>

definition notes_table :: "string list" where
  "notes_table = [''C'', ''C#'', ''D'', ''D#'', ''E'', ''F'', ''F#'', ''G'', ''G#'', ''A'', ''A#'', ''B'']"

text \<open>
  Lines 35 to 49 of \<open>playTone\<close>: the frequency starts at 440 and is replaced only when
  the pattern matches and the upper-cased name is in the table.
\<close>

definition pitchFrequency :: "string \<Rightarrow> real" where
  "pitchFrequency pitch =
     (case matchPitch pitch of
        None \<Rightarrow> 440
      | Some (name, digits) \<Rightarrow>
          (let note = toUpperCase name;
               octave = int (parseInt digits);
               semitoneIndex = indexOf notes_table note
           in if semitoneIndex \<noteq> -1
              then (let noteMidi = (octave + 1) * 12 + semitoneIndex
                    in 440 * 2 powr ((real_of_int noteMidi - 69) / 12))
              else 440))"

text \<open>
  One started oscillator with its gain envelope: the values \<open>playTone\<close> passes to the
  Web Audio calls.
\<close>

record Voice =
  frequency :: real
  startTime :: real
  attackEnd :: real
  sustainAt :: real
  releaseEnd :: real
  stopTime :: real

datatype ContextState = Suspended | Running | Closed

record AudioContext =
  ctxState :: ContextState
  currentTime :: real
  voices :: "Voice list"

record AudioEngine =
  ctx :: "AudioContext option"
  gainNode :: "real option"

text \<open>The constructor: both fields are set exactly when \<open>window\<close> is defined.\<close>

definition newAudioEngine :: "bool \<Rightarrow> AudioContext \<Rightarrow> AudioEngine" where
  "newAudioEngine windowDefined c =
     (if windowDefined then \<lparr>ctx = Some c, gainNode = Some 0.3\<rparr>
      else \<lparr>ctx = None, gainNode = None\<rparr>)"

definition resume :: "AudioEngine \<Rightarrow> AudioEngine" where
  "resume e =
     (case ctx e of
        None \<Rightarrow> e
      | Some c \<Rightarrow> if ctxState c = Suspended then e\<lparr>ctx := Some (c\<lparr>ctxState := Running\<rparr>)\<rparr> else e)"

definition isRest :: "string \<Rightarrow> bool" where
  "isRest pitch = includes_str (toLowerCase pitch) ''rest''"

definition mkVoice :: "string \<Rightarrow> real \<Rightarrow> real \<Rightarrow> Voice" where
  "mkVoice pitch durationSec start =
     \<lparr>frequency = pitchFrequency pitch,
      startTime = start,
      attackEnd = start + 0.02,
      sustainAt = start + max 0.05 (durationSec * 0.8),
      releaseEnd = start + durationSec,
      stopTime = start + durationSec + 0.1\<rparr>"

definition playTone :: "AudioEngine \<Rightarrow> string \<Rightarrow> real \<Rightarrow> real \<Rightarrow> AudioEngine" where
  "playTone e pitch durationSec start =
     (case (ctx e, gainNode e) of
        (Some c, Some g) \<Rightarrow>
          if isRest pitch then e
          else e\<lparr>ctx := Some (c\<lparr>voices := voices c @ [mkVoice pitch durationSec start]\<rparr>)\<rparr>
      | _ \<Rightarrow> e)"

text \<open>
  \<open>playChord\<close> reads the audio clock once and hands the same value to every call of
  \<open>playTone\<close>; \<open>forEach\<close> is a left fold over the pitches.
\<close>

definition playChord :: "AudioEngine \<Rightarrow> string list \<Rightarrow> real \<Rightarrow> AudioEngine" where
  "playChord e pitches durationSec =
     (case ctx e of
        None \<Rightarrow> e
      | Some c \<Rightarrow>
          (let now = currentTime c
           in foldl (\<lambda>e' pitch. playTone e' pitch durationSec now) e pitches))"

definition engineVoices :: "AudioEngine \<Rightarrow> Voice list" where
  "engineVoices e = (case ctx e of None \<Rightarrow> [] | Some c \<Rightarrow> voices c)"


subsection \<open>Analysis results and ingestion\<close>

text \<open>A box is \<open>[ymin, xmin, ymax, xmax]\<close> on the 0 to 1000 page scale.\<close>

type_synonym Box = "real \<times> real \<times> real \<times> real"

text \<open>
  The frame identifier is the template string \<open>frame-${index}-${Date.now()}\<close>; the model
  keeps its two numbers. \<open>note_coordinates\<close> is read behind a presence check, so it is
  optional. The field \<open>notes\<close> is named \<open>notes_list\<close> here.
\<close>

record FrameData =
  frame_id :: "nat \<times> nat"
  pageIndex :: nat
  notes_list :: "string list"
  duration :: real
  box_2d :: Box
  note_coordinates :: "Box list option"

record SheetAnalysisResult =
  tempo :: real
  frames :: "FrameData list"

text \<open>
  What \<open>JSON.parse\<close> returns for the service's text: the \<open>frames\<close> field may be absent,
  and then \<open>data.frames.map\<close> throws.
\<close>

record ParsedJson =
  json_tempo :: real
  json_frames :: "FrameData list option"

datatype Response = RequestFailed | NoText | Malformed | Json ParsedJson

datatype error = ApiKeyMissing | RequestError | NoResponseFromAI | SyntaxError | TypeError

definition assignIds :: "nat \<Rightarrow> FrameData list \<Rightarrow> FrameData list" where
  "assignIds now fs = map (\<lambda>(index, frame). frame\<lparr>frame_id := (index, now)\<rparr>) (enumerate 0 fs)"

definition analyzeSheetMusic :: "bool \<Rightarrow> nat \<Rightarrow> Response \<Rightarrow> error + SheetAnalysisResult" where
  "analyzeSheetMusic apiKey now response =
     (if \<not> apiKey then Inl ApiKeyMissing
      else case response of
             RequestFailed \<Rightarrow> Inl RequestError
           | NoText \<Rightarrow> Inl NoResponseFromAI
           | Malformed \<Rightarrow> Inl SyntaxError
           | Json parsed \<Rightarrow>
               (case json_frames parsed of
                  None \<Rightarrow> Inl TypeError
                | Some fs \<Rightarrow> Inr \<lparr>tempo = json_tempo parsed, frames = assignIds now fs\<rparr>))"

datatype AppStatus = IDLE | ANALYZING | READY | PLAYING | ERROR

record App =
  status :: AppStatus
  imageSrcs :: "string list"
  sheetData :: "SheetAnalysisResult option"
  errorMessage :: "string option"

definition initialApp :: App where
  "initialApp = \<lparr>status = IDLE, imageSrcs = [], sheetData = None, errorMessage = None\<rparr>"

text \<open>
  \<open>handleFilesSelect\<close>: \<open>files\<close> are the data URLs the file readers produced, or \<open>None\<close>
  when a reader failed.
\<close>

definition handleFilesSelect ::
  "App \<Rightarrow> string list option \<Rightarrow> bool \<Rightarrow> nat \<Rightarrow> Response \<Rightarrow> App" where
  "handleFilesSelect app files apiKey now response =
     (let app1 = app\<lparr>status := ANALYZING, errorMessage := None\<rparr>
      in case files of
           None \<Rightarrow> app1\<lparr>status := ERROR, errorMessage := Some ''Error reading files.''\<rparr>
         | Some srcs \<Rightarrow>
             (let app2 = app1\<lparr>imageSrcs := srcs\<rparr>
              in case analyzeSheetMusic apiKey now response of
                   Inr result \<Rightarrow> app2\<lparr>sheetData := Some result, status := READY\<rparr>
                 | Inl e \<Rightarrow>
                     app2\<lparr>status := ERROR,
                          errorMessage := Some ''Failed to analyze sheet music. Please ensure the images are clear and try again.''\<rparr>))"

text \<open>The condition under which \<open>App\<close> renders the \<open>MusicPlayer\<close>.\<close>

definition playerMounted :: "App \<Rightarrow> bool" where
  "playerMounted app =
     ((status app = READY \<or> status app = PLAYING) \<and> imageSrcs app \<noteq> [] \<and> sheetData app \<noteq> None)"

subsection \<open>The view renderer\<close>

text \<open>Reading an array at an index: \<open>undefined\<close> outside the array.\<close>

definition lookup :: "'a list \<Rightarrow> nat \<Rightarrow> 'a option" where
  "lookup xs i = (if i < length xs then Some (xs ! i) else None)"












subsection \<open>The playback scheduler\<close>

text \<open>
  A pending timer of the browser's timer table. Its callback is the closure
  \<open>() => playFrame(index + 1)\<close>: it holds the \<open>index\<close> of the call that armed it and the
  \<open>playFrame\<close> of the render in which playback was started, whose \<open>playbackSpeed\<close> is
  the value of that render.
\<close>

record Timer =
  timer_id :: nat
  delay :: real
  cb_index :: nat
  cb_speed :: real

text \<open>
  The component's state (\<open>useState\<close>), its refs (\<open>useRef\<close>) and the timer table.
  Timer handles are positive integers, handed out in increasing order.
\<close>

record Player =
  isPlaying :: bool
  currentFrameIndex :: nat
  playbackSpeed :: real
  timeoutRef :: "nat option"
  audioEngine :: "AudioEngine option"
  pending :: "Timer list"
  nextTimerId :: nat

definition mountPlayer :: "AudioContext \<Rightarrow> Player" where
  "mountPlayer c =
     \<lparr>isPlaying = False, currentFrameIndex = 0, playbackSpeed = 1, timeoutRef = None,
      audioEngine = Some (newAudioEngine True c), pending = [], nextTimerId = 1\<rparr>"

definition setTimeout :: "Player \<Rightarrow> real \<Rightarrow> nat \<Rightarrow> real \<Rightarrow> nat \<times> Player" where
  "setTimeout s ms index speed =
     (let tid = nextTimerId s
      in (tid, s\<lparr>pending := pending s @ [\<lparr>timer_id = tid, delay = ms, cb_index = index, cb_speed = speed\<rparr>],
                nextTimerId := tid + 1\<rparr>))"

definition clearTimeout :: "nat \<Rightarrow> Player \<Rightarrow> Player" where
  "clearTimeout tid s = s\<lparr>pending := filter (\<lambda>t. timer_id t \<noteq> tid) (pending s)\<rparr>"

text \<open>\<open>if (timeoutRef.current) clearTimeout(timeoutRef.current)\<close>: a handle 0 is falsy.\<close>

definition clearPending :: "Player \<Rightarrow> Player" where
  "clearPending s =
     (case timeoutRef s of
        None \<Rightarrow> s
      | Some tid \<Rightarrow> if tid \<noteq> 0 then clearTimeout tid s else s)"

definition beatDurationSec :: "SheetAnalysisResult \<Rightarrow> real" where
  "beatDurationSec data = 60 / tempo data"

definition frameDurationSec :: "SheetAnalysisResult \<Rightarrow> FrameData \<Rightarrow> real \<Rightarrow> real" where
  "frameDurationSec data frame speed = (beatDurationSec data * duration frame) / speed"

text \<open>
  \<open>playFrame\<close>, with the \<open>playbackSpeed\<close> of its closure as the parameter \<open>speed\<close>. Reading
  \<open>frame.duration\<close> of an \<open>undefined\<close> frame would throw a \<open>TypeError\<close>.
\<close>

definition playFrame :: "SheetAnalysisResult \<Rightarrow> real \<Rightarrow> nat \<Rightarrow> Player \<Rightarrow> error + Player" where
  "playFrame data speed index s =
     (if index \<ge> length (frames data)
      then Inr (s\<lparr>isPlaying := False, currentFrameIndex := 0\<rparr>)
      else case lookup (frames data) index of
             None \<Rightarrow> Inl TypeError
           | Some frame \<Rightarrow>
               (let s1 = s\<lparr>currentFrameIndex := index\<rparr>;
                    sec = frameDurationSec data frame speed;
                    frameDurationMs = sec * 1000;
                    s2 = s1\<lparr>audioEngine :=
                             map_option (\<lambda>e. playChord (resume e) (notes_list frame) (sec * 0.95))
                               (audioEngine s1)\<rparr>;
                    armed = setTimeout s2 frameDurationMs index speed
                in Inr ((snd armed)\<lparr>timeoutRef := Some (fst armed)\<rparr>)))"

definition handlePlayPause :: "SheetAnalysisResult \<Rightarrow> Player \<Rightarrow> error + Player" where
  "handlePlayPause data s =
     (if isPlaying s
      then Inr (clearPending (s\<lparr>isPlaying := False\<rparr>))
      else playFrame data (playbackSpeed s) (currentFrameIndex s) (s\<lparr>isPlaying := True\<rparr>))"

definition handleStop :: "Player \<Rightarrow> Player" where
  "handleStop s = clearPending (s\<lparr>isPlaying := False, currentFrameIndex := 0\<rparr>)"

definition speedDown :: "Player \<Rightarrow> Player" where
  "speedDown s = s\<lparr>playbackSpeed := max 0.25 (playbackSpeed s - 0.25)\<rparr>"

definition speedUp :: "Player \<Rightarrow> Player" where
  "speedUp s = s\<lparr>playbackSpeed := min 2.0 (playbackSpeed s + 0.25)\<rparr>"

text \<open>
  The browser runs the callback of a pending timer and removes it from the table; a
  handle that is not pending (cleared, or already fired) runs nothing.
\<close>

definition timerFires :: "SheetAnalysisResult \<Rightarrow> nat \<Rightarrow> Player \<Rightarrow> error + Player" where
  "timerFires data tid s =
     (case find (\<lambda>t. timer_id t = tid) (pending s) of
        None \<Rightarrow> Inr s
      | Some t \<Rightarrow> playFrame data (cb_speed t) (cb_index t + 1) (clearTimeout tid s))"

datatype Event = PlayPause | Stop | SpeedDown | SpeedUp | TimerFires nat

fun step :: "SheetAnalysisResult \<Rightarrow> Event \<Rightarrow> Player \<Rightarrow> error + Player" where
  "step data PlayPause s = handlePlayPause data s"
| "step data Stop s = Inr (handleStop s)"
| "step data SpeedDown s = Inr (speedDown s)"
| "step data SpeedUp s = Inr (speedUp s)"
| "step data (TimerFires tid) s = timerFires data tid s"

fun run :: "SheetAnalysisResult \<Rightarrow> Event list \<Rightarrow> Player \<Rightarrow> error + Player" where
  "run data [] s = Inr s"
| "run data (ev # evs) s = (case step data ev s of Inl e \<Rightarrow> Inl e | Inr s' \<Rightarrow> run data evs s')"

text \<open>The states of a mounted player: any sequence of events from the mount.\<close>

inductive reachable :: "SheetAnalysisResult \<Rightarrow> Player \<Rightarrow> bool" for data where
  reachable_mount: "reachable data (mountPlayer c)"
| reachable_step: "reachable data s \<Longrightarrow> step data ev s = Inr s' \<Longrightarrow> reachable data s'"

text \<open>Readers of a handler's result, for statements about concrete runs.\<close>

definition resultState :: "error + Player \<Rightarrow> Player option" where
  "resultState r = (case r of Inl e \<Rightarrow> None | Inr s \<Rightarrow> Some s)"

definition armedDelays :: "error + Player \<Rightarrow> real list" where
  "armedDelays r = (case r of Inl e \<Rightarrow> [] | Inr s \<Rightarrow> map delay (pending s))"

subsection \<open>The pitch formula as the specification words it\<close>

definition spec_midiNumber :: "nat \<Rightarrow> nat \<Rightarrow> int" where
  "spec_midiNumber octave semitoneIndex = (int octave + 1) * 12 + int semitoneIndex"

definition spec_frequency :: "int \<Rightarrow> real" where
  "spec_frequency midiNumber = 440 * 2 powr ((real_of_int midiNumber - 69) / 12)"

text \<open>
  A token parses as a pitch when it is a name whose upper-case form is entry \<open>k\<close> of the
  chromatic table, followed by a non-empty run of decimal digits.
\<close>

definition parsesAsPitch :: "string \<Rightarrow> string \<Rightarrow> nat \<Rightarrow> string \<Rightarrow> bool" where
  "parsesAsPitch token name k ds =
     (token = name @ ds \<and> k < 12 \<and> toUpperCase name = notes_table ! k \<and>
      ds \<noteq> [] \<and> list_all isDigitChar ds)"

subsection \<open>Concrete inputs\<close>

definition demoContext :: AudioContext where
  "demoContext = \<lparr>ctxState = Running, currentTime = 5, voices = []\<rparr>"

definition demoFrame :: "string list \<Rightarrow> real \<Rightarrow> FrameData" where
  "demoFrame ns d =
     \<lparr>frame_id = (0, 0), pageIndex = 0, notes_list = ns, duration = d,
      box_2d = (100, 50, 300, 450), note_coordinates = Some [(100, 50, 300, 450)]\<rparr>"

text \<open>The scenario of the specification: three frames at 120 beats per minute.\<close>

definition demoData :: SheetAnalysisResult where
  "demoData =
     \<lparr>tempo = 120,
      frames = [demoFrame [''C4''] 1, demoFrame [''rest''] 0.5, demoFrame [''E4'', ''G4''] 2]\<rparr>"


subsection \<open>The scheduler's invariant\<close>

text \<open>
  Every pending timer is the one \<open>timeoutRef\<close> names, a stopped player has no pending
  timer, and a playing one shows a frame of the sequence.
\<close>

definition schedulerInv :: "SheetAnalysisResult \<Rightarrow> Player \<Rightarrow> bool" where
  "schedulerInv data s =
     ((\<forall>t \<in> set (pending s). timeoutRef s = Some (timer_id t) \<and> timer_id t \<noteq> 0) \<and>
      (\<not> isPlaying s \<longrightarrow> pending s = []) \<and>
      (isPlaying s \<longrightarrow> currentFrameIndex s < length (frames data)) \<and>
      length (pending s) \<le> 1 \<and>
      nextTimerId s \<noteq> 0)"

text \<open>The state of the scenario after pressing play and letting the first frame elapse.\<close>

definition demoPlaying :: Player where
  "demoPlaying =
     \<lparr>isPlaying = True, currentFrameIndex = 1, playbackSpeed = 1, timeoutRef = Some 2,
      audioEngine = Some \<lparr>ctx = Some (demoContext\<lparr>voices := [mkVoice ''C4'' 0.475 5]\<rparr>),
                         gainNode = Some 0.3\<rparr>,
      pending = [\<lparr>timer_id = 2, delay = 250, cb_index = 1, cb_speed = 1\<rparr>],
      nextTimerId = 3\<rparr>"

text \<open>The same run one tick later: the last frame is sounding.\<close>

definition demoLastFrame :: Player where
  "demoLastFrame =
     \<lparr>isPlaying = True, currentFrameIndex = 2, playbackSpeed = 1, timeoutRef = Some 3,
      audioEngine = Some \<lparr>ctx = Some (demoContext\<lparr>voices :=
                             [mkVoice ''C4'' 0.475 5, mkVoice ''E4'' 0.95 5, mkVoice ''G4'' 0.95 5]\<rparr>),
                         gainNode = Some 0.3\<rparr>,
      pending = [\<lparr>timer_id = 3, delay = 1000, cb_index = 2, cb_speed = 1\<rparr>],
      nextTimerId = 4\<rparr>"




text \<open>A parsed response with a frames array that is empty and a tempo of 0.\<close>

definition emptyZeroTempoJson :: ParsedJson where
  "emptyZeroTempoJson = \<lparr>json_tempo = 0, json_frames = Some []\<rparr>"

section \<open>The tone synthesizer: pitch mapping, rests, chords\<close>

lemma noteChar_upper: "isNoteChar (toUpperChar c) \<Longrightarrow> isNoteChar c"
  by (auto simp: isNoteChar_def toUpperChar_def split: if_splits)

lemma digit_not_note: "isDigitChar c \<Longrightarrow> \<not> isNoteChar c"
  by (auto simp: isNoteChar_def isDigitChar_def isLowerChar_def isUpperChar_def)

lemma notes_table_chars: "u \<in> set notes_table \<Longrightarrow> list_all isNoteChar u"
  by (auto simp: notes_table_def isNoteChar_def isUpperChar_def)

lemma upt_12: "[0..<12] = [0, 1, 2, 3, 4, 5, 6, 7, 8, 9, 10, 11 :: nat]"
  by code_simp

lemma nat_less_12: "(k::nat) < 12 \<Longrightarrow> k \<in> {0, 1, 2, 3, 4, 5, 6, 7, 8, 9, 10, 11}"
proof -
  assume "k < 12"
  then have "k \<in> set [0..<12]" by simp
  then show ?thesis unfolding upt_12 by simp
qed

lemma indexOf_notes_table: "k < 12 \<Longrightarrow> indexOf notes_table (notes_table ! k) = int k"
  by (drule nat_less_12) (auto simp: indexOf_def notes_table_def)

lemma matchPitch_append:
  assumes "name \<noteq> []" "list_all isNoteChar name" "ds \<noteq> []" "list_all isDigitChar ds"
  shows "matchPitch (name @ ds) = Some (name, ds)"
proof -
  have "\<not> isNoteChar (hd ds)" using assms(3,4) by (cases ds) (auto dest: digit_not_note)
  then have "takeWhile isNoteChar (name @ ds) = name" "dropWhile isNoteChar (name @ ds) = ds"
    using assms(2,3) by (cases ds; simp add: list_all_iff takeWhile_append2 dropWhile_append2 takeWhile_eq_Nil_iff)+
  then show ?thesis using assms by (simp add: matchPitch_def)
qed

lemma matchPitch_SomeD:
  assumes "matchPitch p = Some (name, ds)"
  shows "p = name @ ds \<and> name \<noteq> [] \<and> ds \<noteq> [] \<and> list_all isDigitChar ds \<and> list_all isNoteChar name"
  using assms by (auto simp: matchPitch_def Let_def list_all_iff split: if_splits dest: set_takeWhileD)

lemma upper_name_noteChars:
  assumes "k < 12" "toUpperCase name = notes_table ! k"
  shows "name \<noteq> [] \<and> list_all isNoteChar name"
proof -
  have "length notes_table = 12" by (simp add: notes_table_def)
  then have mem: "notes_table ! k \<in> set notes_table"
    using assms(1) by (simp add: nth_mem)
  then have "list_all isNoteChar (map toUpperChar name)"
    using assms(2) notes_table_chars by (simp add: toUpperCase_def)
  then have "list_all isNoteChar name"
    by (simp add: list_all_iff noteChar_upper)
  moreover have "notes_table ! k \<noteq> []"
    using mem by (auto simp: notes_table_def)
  then have "name \<noteq> []" using assms(2) by (auto simp: toUpperCase_def)
  ultimately show ?thesis by simp
qed

lemma pitchFrequency_parsed:
  assumes "parsesAsPitch token name k ds"
  shows "pitchFrequency token = spec_frequency (spec_midiNumber (parseInt ds) k)"
proof -
  from assms have tok: "token = name @ ds" and k: "k < 12"
    and up: "toUpperCase name = notes_table ! k"
    and ds: "ds \<noteq> []" "list_all isDigitChar ds"
    by (simp_all add: parsesAsPitch_def)
  have "matchPitch token = Some (name, ds)"
    using upper_name_noteChars[OF k up] ds tok by (simp add: matchPitch_append)
  moreover have "indexOf notes_table (toUpperCase name) = int k"
    using up indexOf_notes_table[OF k] by simp
  ultimately show ?thesis
    by (simp add: pitchFrequency_def spec_frequency_def spec_midiNumber_def Let_def)
qed

lemma indexOfFrom_range:
  "indexOfFrom xs x i \<noteq> -1 \<Longrightarrow> 0 \<le> i \<Longrightarrow>
     i \<le> indexOfFrom xs x i \<and> indexOfFrom xs x i < i + int (length xs) \<and>
     xs ! nat (indexOfFrom xs x i - i) = x"
proof (induction xs arbitrary: i)
  case Nil
  then show ?case by simp
next
  case (Cons y ys)
  show ?case
  proof (cases "y = x")
    case True
    then show ?thesis by simp
  next
    case False
    with Cons.prems have ne: "indexOfFrom ys x (i + 1) \<noteq> -1" by simp
    from Cons.IH[OF ne] Cons.prems(2)
    have ih: "i + 1 \<le> indexOfFrom ys x (i + 1)" "indexOfFrom ys x (i + 1) < i + 1 + int (length ys)"
      "ys ! nat (indexOfFrom ys x (i + 1) - (i + 1)) = x" by auto
    have "nat (indexOfFrom ys x (i + 1) - i) = Suc (nat (indexOfFrom ys x (i + 1) - (i + 1)))"
      using ih(1) by linarith
    then show ?thesis using False ih by simp
  qed
qed

lemma pitchFrequency_fallback:
  assumes "\<forall>name k ds. \<not> parsesAsPitch token name k ds"
  shows "pitchFrequency token = 440"
proof (cases "matchPitch token")
  case None
  then show ?thesis by (simp add: pitchFrequency_def)
next
  case (Some nd)
  obtain name ds where nd: "nd = (name, ds)" by (cases nd)
  from Some nd matchPitch_SomeD have split: "token = name @ ds" "ds \<noteq> []" "list_all isDigitChar ds"
    by blast+
  have "indexOf notes_table (toUpperCase name) = -1"
  proof (rule ccontr)
    assume ne: "indexOf notes_table (toUpperCase name) \<noteq> -1"
    define k where "k = nat (indexOf notes_table (toUpperCase name))"
    from indexOfFrom_range[of notes_table "toUpperCase name" 0] ne
    have "k < 12" "notes_table ! k = toUpperCase name"
      by (auto simp: indexOf_def k_def notes_table_def)
    then have "parsesAsPitch token name k ds"
      using split by (simp add: parsesAsPitch_def)
    with assms show False by blast
  qed
  then show ?thesis using Some nd by (simp add: pitchFrequency_def)
qed

text \<open>
  Claim C5. The frequency \<open>playTone\<close> computes for a token that parses as a pitch, with
  its name at position \<open>k\<close> of the twelve-tone table and octave digits \<open>ds\<close>, is
  \<open>440 * 2^((midiNumber - 69)/12)\<close> with \<open>midiNumber = (octave + 1) * 12 + k\<close>; every
  token that parses in no such way gets 440; \<open>A4\<close> gives exactly 440 and \<open>A5\<close> gives 880.
  The mapping is a total function: no token raises an error.
\<close>

theorem pitch_frequency_mapping:
  "(parsesAsPitch token name k ds \<longrightarrow>
      pitchFrequency token = spec_frequency (spec_midiNumber (parseInt ds) k)) \<and>
   ((\<forall>name' k' ds'. \<not> parsesAsPitch token name' k' ds') \<longrightarrow> pitchFrequency token = 440) \<and>
   pitchFrequency ''A4'' = 440 \<and> pitchFrequency ''A5'' = 880"
proof (intro conjI impI)
  show "pitchFrequency ''A4'' = 440" by code_simp
  show "pitchFrequency ''A5'' = 880" by code_simp
qed (simp_all add: pitchFrequency_parsed pitchFrequency_fallback)

lemma not_pitch_Bb4: "\<not> parsesAsPitch ''Bb4'' name k ds"
proof
  assume a: "parsesAsPitch ''Bb4'' name k ds"
  then have e: "''Bb4'' = name @ ds" and ds: "ds \<noteq> []" "list_all isDigitChar ds"
    and k: "k < 12" and up: "toUpperCase name = notes_table ! k"
    by (simp_all add: parsesAsPitch_def)
  have nd: "\<not> isDigitChar CHR ''B''" "\<not> isDigitChar CHR ''b''" by (simp_all add: isDigitChar_def)
  from e ds nd have "name = ''Bb''"
    by (auto simp: append_eq_Cons_conv Cons_eq_append_conv)
  moreover have "toUpperCase ''Bb'' = ''BB''" by code_simp
  ultimately have "toUpperCase name = ''BB''" by simp
  with up nat_less_12[OF k] show False
    by (auto simp: notes_table_def)
qed

theorem pitch_frequency_mapping_witness:
  "parsesAsPitch ''c#3'' ''c#'' 1 ''3'' \<and>
   pitchFrequency ''c#3'' = spec_frequency 49 \<and>
   (\<forall>name k ds. \<not> parsesAsPitch ''Bb4'' name k ds) \<and> pitchFrequency ''Bb4'' = 440"
proof -
  have p: "parsesAsPitch ''c#3'' ''c#'' 1 ''3''"
    unfolding parsesAsPitch_def by code_simp
  have m: "spec_midiNumber (parseInt ''3'') 1 = 49"
    by code_simp
  have n: "\<forall>name k ds. \<not> parsesAsPitch ''Bb4'' name k ds"
    using not_pitch_Bb4 by blast
  from pitch_frequency_mapping[of "''c#3''" "''c#''" 1 "''3''"] p m
  have "pitchFrequency ''c#3'' = spec_frequency 49" by simp
  moreover from pitch_frequency_mapping[of "''Bb4''"] n
  have "pitchFrequency ''Bb4'' = 440" by blast
  ultimately show ?thesis using p n by blast
qed


lemma startsWith_iff: "startsWith s p \<longleftrightarrow> (\<exists>suf. s = p @ suf)"
  by (induction s p rule: startsWith.induct) auto

lemma includes_str_iff: "includes_str s p \<longleftrightarrow> (\<exists>pre suf. s = pre @ p @ suf)"
proof (induction s)
  case Nil
  then show ?case by auto
next
  case (Cons c cs)
  show ?case
  proof
    assume "includes_str (c # cs) p"
    then consider "startsWith (c # cs) p" | "includes_str cs p" by auto
    then show "\<exists>pre suf. c # cs = pre @ p @ suf"
    proof cases
      case 1
      then obtain suf where "c # cs = p @ suf" by (auto simp: startsWith_iff)
      then have "c # cs = [] @ p @ suf" by simp
      then show ?thesis by blast
    next
      case 2
      then obtain pre suf where "cs = pre @ p @ suf" using Cons.IH by auto
      then have "c # cs = (c # pre) @ p @ suf" by simp
      then show ?thesis by blast
    qed
  next
    assume "\<exists>pre suf. c # cs = pre @ p @ suf"
    then obtain pre suf where e: "c # cs = pre @ p @ suf" by blast
    show "includes_str (c # cs) p"
    proof (cases pre)
      case Nil
      then have "startsWith (c # cs) p" using e by (auto simp: startsWith_iff)
      then show ?thesis by simp
    next
      case (Cons a pre')
      then have "cs = pre' @ p @ suf" using e by simp
      then have "includes_str cs p" using Cons.IH by blast
      then show ?thesis by simp
    qed
  qed
qed

lemma isRest_iff: "isRest pitch \<longleftrightarrow> (\<exists>pre suf. toLowerCase pitch = pre @ ''rest'' @ suf)"
  unfolding isRest_def by (rule includes_str_iff)

lemma playTone_rest: "isRest pitch \<Longrightarrow> playTone e pitch d t = e"
  by (simp add: playTone_def split: option.splits)

text \<open>
  Claim C10. Silence detection is a case-insensitive substring test: whenever the
  lower-cased token contains \<open>rest\<close> anywhere, \<open>playTone\<close> returns before parsing, leaves
  the engine as it was, starts no voice, and so behaves as on the literal token \<open>rest\<close>.
\<close>

theorem rest_detection_is_substring_test:
  assumes "toLowerCase pitch = pre @ ''rest'' @ suf"
  shows "playTone e pitch durationSec start = e \<and>
         engineVoices (playTone e pitch durationSec start) = engineVoices e \<and>
         playTone e pitch durationSec start = playTone e ''rest'' durationSec start"
proof -
  have "isRest pitch" using assms isRest_iff by blast
  moreover have "isRest ''rest''" by code_simp
  ultimately show ?thesis by (simp add: playTone_rest)
qed

theorem rest_detection_is_substring_test_witness:
  "toLowerCase ''Crest4'' = ''c'' @ ''rest'' @ ''4'' \<and>
   engineVoices (playTone (newAudioEngine True demoContext) ''Crest4'' 1 0) = [] \<and>
   toLowerCase ''ARREST3'' = ''ar'' @ ''rest'' @ ''3'' \<and>
   engineVoices (playTone (newAudioEngine True demoContext) ''ARREST3'' 1 0) = []"
proof -
  have a: "toLowerCase ''Crest4'' = ''c'' @ ''rest'' @ ''4''" by code_simp
  have b: "toLowerCase ''ARREST3'' = ''ar'' @ ''rest'' @ ''3''" by code_simp
  have v: "engineVoices (newAudioEngine True demoContext) = []"
    by (simp add: engineVoices_def newAudioEngine_def demoContext_def)
  show ?thesis
    using a b v
      rest_detection_is_substring_test[OF a, of "newAudioEngine True demoContext" 1 0]
      rest_detection_is_substring_test[OF b, of "newAudioEngine True demoContext" 1 0]
    by simp
qed

lemma playTone_sound:
  assumes "ctx e = Some c" "gainNode e = Some g" "\<not> isRest pitch"
  shows "playTone e pitch d t = e\<lparr>ctx := Some (c\<lparr>voices := voices c @ [mkVoice pitch d t]\<rparr>)\<rparr>"
  using assms by (simp add: playTone_def)

lemma foldl_playTone:
  assumes "ctx e = Some c" "gainNode e = Some g"
  shows "foldl (\<lambda>e' pitch. playTone e' pitch d t) e pitches =
         e\<lparr>ctx := Some (c\<lparr>voices := voices c @ map (\<lambda>pitch. mkVoice pitch d t)
                                                  (filter (\<lambda>pitch. \<not> isRest pitch) pitches)\<rparr>)\<rparr>"
  using assms
proof (induction pitches arbitrary: e c)
  case Nil
  then show ?case by simp
next
  case (Cons p ps)
  show ?case
  proof (cases "isRest p")
    case True
    then show ?thesis using Cons by (simp add: playTone_rest)
  next
    case False
    let ?c' = "c\<lparr>voices := voices c @ [mkVoice p d t]\<rparr>"
    let ?e' = "e\<lparr>ctx := Some ?c'\<rparr>"
    have step: "playTone e p d t = ?e'" using Cons.prems False by (rule playTone_sound)
    have "ctx ?e' = Some ?c'" "gainNode ?e' = Some g" using Cons.prems by simp_all
    from Cons.IH[OF this] show ?thesis using False step by simp
  qed
qed

text \<open>
  Claim C6. On an initialised engine, \<open>playChord\<close> calls \<open>playTone\<close> once per pitch, in
  order, every call with the one value of the audio clock read before the first call;
  the voices it starts are those of the non-rest pitches, and all of them start at that
  shared time.
\<close>

theorem chord_voices_share_one_start:
  assumes "ctx e = Some c" and "gainNode e = Some g"
  shows "playChord e pitches durationSec =
           foldl (\<lambda>e' pitch. playTone e' pitch durationSec (currentTime c)) e pitches \<and>
         engineVoices (playChord e pitches durationSec) =
           voices c @ map (\<lambda>pitch. mkVoice pitch durationSec (currentTime c))
                          (filter (\<lambda>pitch. \<not> isRest pitch) pitches) \<and>
         (\<forall>v \<in> set (drop (length (voices c)) (engineVoices (playChord e pitches durationSec))).
            startTime v = currentTime c)"
proof -
  have def: "playChord e pitches durationSec =
      foldl (\<lambda>e' pitch. playTone e' pitch durationSec (currentTime c)) e pitches"
    using assms(1) by (simp add: playChord_def)
  have vs: "engineVoices (playChord e pitches durationSec) =
      voices c @ map (\<lambda>pitch. mkVoice pitch durationSec (currentTime c))
                     (filter (\<lambda>pitch. \<not> isRest pitch) pitches)"
    unfolding def foldl_playTone[OF assms] by (simp add: engineVoices_def)
  have "\<forall>v \<in> set (drop (length (voices c)) (engineVoices (playChord e pitches durationSec))).
            startTime v = currentTime c"
    unfolding vs by (auto simp: mkVoice_def)
  with def vs show ?thesis by blast
qed

theorem chord_voices_share_one_start_witness:
  "ctx (newAudioEngine True demoContext) = Some demoContext \<and>
   gainNode (newAudioEngine True demoContext) = Some 0.3 \<and>
   map startTime (engineVoices (playChord (newAudioEngine True demoContext) [''E4'', ''rest'', ''G4''] 1))
     = [5, 5]"
proof -
  have c: "ctx (newAudioEngine True demoContext) = Some demoContext"
    and g: "gainNode (newAudioEngine True demoContext) = Some 0.3"
    by (simp_all add: newAudioEngine_def)
  have r: "filter (\<lambda>pitch. \<not> isRest pitch) [''E4'', ''rest'', ''G4''] = [''E4'', ''G4'']"
    by code_simp
  from chord_voices_share_one_start[OF c g, of "[''E4'', ''rest'', ''G4'']" 1]
  have "engineVoices (playChord (newAudioEngine True demoContext) [''E4'', ''rest'', ''G4''] 1) =
      voices demoContext @ map (\<lambda>pitch. mkVoice pitch 1 (currentTime demoContext))
        (filter (\<lambda>pitch. \<not> isRest pitch) [''E4'', ''rest'', ''G4''])"
    by blast
  then have "map startTime
      (engineVoices (playChord (newAudioEngine True demoContext) [''E4'', ''rest'', ''G4''] 1)) = [5, 5]"
    unfolding r by (simp add: mkVoice_def demoContext_def)
  with c g show ?thesis by simp
qed

section \<open>The scheduler: one call of playFrame\<close>

lemma playFrame_stop:
  "length (frames data) \<le> index \<Longrightarrow>
     playFrame data speed index s = Inr (s\<lparr>isPlaying := False, currentFrameIndex := 0\<rparr>)"
  by (simp add: playFrame_def)

lemma playFrame_arm:
  "index < length (frames data) \<Longrightarrow>
     playFrame data speed index s =
       Inr (s\<lparr>currentFrameIndex := index,
              audioEngine :=
                map_option (\<lambda>e. playChord (resume e) (notes_list (frames data ! index))
                                  (frameDurationSec data (frames data ! index) speed * 0.95))
                  (audioEngine s),
              pending := pending s @
                [\<lparr>timer_id = nextTimerId s,
                  delay = frameDurationSec data (frames data ! index) speed * 1000,
                  cb_index = index, cb_speed = speed\<rparr>],
              nextTimerId := nextTimerId s + 1,
              timeoutRef := Some (nextTimerId s)\<rparr>)"
  by (simp add: playFrame_def lookup_def setTimeout_def Let_def)

lemma playFrame_total: "\<exists>s'. playFrame data speed index s = Inr s'"
  by (cases "index < length (frames data)") (simp_all add: playFrame_arm playFrame_stop)

lemma armedDelays_playFrame:
  "index < length (frames data) \<Longrightarrow>
     armedDelays (playFrame data speed index s) =
       map delay (pending s) @ [frameDurationSec data (frames data ! index) speed * 1000]"
  by (simp add: playFrame_arm armedDelays_def)


section \<open>The scheduler: timing of one frame\<close>

text \<open>
  Claim C3. For positive tempo, frame duration and speed multiplier, the wall-clock
  duration the scheduler gives a frame is \<open>(60 / tempo) * duration / speed\<close> seconds (the
  advance timer is armed with 1000 times it, in milliseconds); halving the speed doubles
  it and doubling the tempo halves it.
\<close>

theorem frame_wall_clock_duration:
  assumes "0 < tempo data" and "0 < duration frame" and "0 < speed"
  shows "frameDurationSec data frame speed = (60 / tempo data) * duration frame / speed \<and>
         0 < frameDurationSec data frame speed \<and>
         frameDurationSec data frame (speed / 2) = 2 * frameDurationSec data frame speed \<and>
         frameDurationSec (data\<lparr>tempo := 2 * tempo data\<rparr>) frame speed
           = frameDurationSec data frame speed / 2 \<and>
         (index < length (frames data) \<and> frames data ! index = frame \<longrightarrow>
            armedDelays (playFrame data speed index s) =
              map delay (pending s) @ [1000 * ((60 / tempo data) * duration frame / speed)]) \<and>
         (\<not> isPlaying s \<and> playbackSpeed s = speed \<and> currentFrameIndex s = index \<and>
          index < length (frames data) \<and> frames data ! index = frame \<longrightarrow>
            armedDelays (handlePlayPause data s) =
              map delay (pending s) @ [1000 * ((60 / tempo data) * duration frame / speed)])"
proof -
  have sec: "frameDurationSec data frame speed = (60 / tempo data) * duration frame / speed"
    by (simp add: frameDurationSec_def beatDurationSec_def)
  have pos: "0 < frameDurationSec data frame speed"
    unfolding sec using assms by simp
  have half: "frameDurationSec data frame (speed / 2) = 2 * frameDurationSec data frame speed"
    by (simp add: frameDurationSec_def)
  have twice: "frameDurationSec (data\<lparr>tempo := 2 * tempo data\<rparr>) frame speed
      = frameDurationSec data frame speed / 2"
    by (simp add: frameDurationSec_def beatDurationSec_def)
  have arm: "index < length (frames data) \<and> frames data ! index = frame \<longrightarrow>
      armedDelays (playFrame data speed index s) =
        map delay (pending s) @ [1000 * ((60 / tempo data) * duration frame / speed)]"
    by (auto simp: armedDelays_playFrame sec)
  have play: "\<not> isPlaying s \<and> playbackSpeed s = speed \<and> currentFrameIndex s = index \<and>
      index < length (frames data) \<and> frames data ! index = frame \<longrightarrow>
        armedDelays (handlePlayPause data s) =
          map delay (pending s) @ [1000 * ((60 / tempo data) * duration frame / speed)]"
    by (auto simp: handlePlayPause_def armedDelays_playFrame sec)
  from sec pos half twice arm play show ?thesis by blast
qed

theorem frame_wall_clock_duration_witness:
  "0 < tempo demoData \<and> 0 < duration (demoFrame [''E4'', ''G4''] 2) \<and> (0::real) < 1 \<and>
   frameDurationSec demoData (demoFrame [''E4'', ''G4''] 2) 1 = 1 \<and>
   frameDurationSec demoData (demoFrame [''E4'', ''G4''] 2) (1 / 2) = 2 \<and>
   armedDelays (playFrame demoData 1 2 (mountPlayer demoContext)) = [1000]"
proof -
  have t: "0 < tempo demoData" by (simp add: demoData_def)
  have d: "0 < duration (demoFrame [''E4'', ''G4''] 2)" by (simp add: demoFrame_def)
  have i: "2 < length (frames demoData) \<and> frames demoData ! 2 = demoFrame [''E4'', ''G4''] 2"
    by (simp add: demoData_def)
  have v: "(60 / tempo demoData) * duration (demoFrame [''E4'', ''G4''] 2) / 1 = 1"
    by (simp add: demoData_def demoFrame_def)
  have p: "pending (mountPlayer demoContext) = []" by (simp add: mountPlayer_def)
  from frame_wall_clock_duration[OF t d, of 1 2 "mountPlayer demoContext"] i v p
  show ?thesis using t d by simp
qed





section \<open>The scheduler: cancellation\<close>

lemma owned_timers_cleared:
  assumes "\<forall>t \<in> set (pending s). timeoutRef s = Some (timer_id t) \<and> timer_id t \<noteq> 0"
  shows "pending (clearPending s) = []"
proof (cases "timeoutRef s")
  case None
  with assms have "pending s = []" by (cases "pending s") auto
  with None show ?thesis by (simp add: clearPending_def)
next
  case (Some tid)
  with assms have all: "\<forall>t \<in> set (pending s). timer_id t = tid \<and> tid \<noteq> 0" by auto
  show ?thesis
  proof (cases "tid = 0")
    case True
    with all have "pending s = []" by (cases "pending s") auto
    with Some True show ?thesis by (simp add: clearPending_def)
  next
    case False
    have "filter (\<lambda>t. timer_id t \<noteq> tid) (pending s) = []"
      using all by (simp add: filter_empty_conv)
    with Some False show ?thesis by (simp add: clearPending_def clearTimeout_def)
  qed
qed

lemma fired_timer_was_the_only_one:
  assumes "\<forall>t \<in> set (pending s). timeoutRef s = Some (timer_id t) \<and> timer_id t \<noteq> 0"
    and "find (\<lambda>t. timer_id t = tid) (pending s) = Some t"
  shows "pending (clearTimeout tid s) = []"
proof -
  from assms(2) have "t \<in> set (pending s)" "timer_id t = tid"
    by (auto simp: find_Some_iff)
  with assms(1) have "timeoutRef s = Some tid" by blast
  with assms(1) have "\<forall>u \<in> set (pending s). timer_id u = tid" by fastforce
  then show ?thesis by (simp add: clearTimeout_def filter_empty_conv)
qed

lemma clearPending_fields:
  "isPlaying (clearPending s) = isPlaying s"
  "currentFrameIndex (clearPending s) = currentFrameIndex s"
  "playbackSpeed (clearPending s) = playbackSpeed s"
  "timeoutRef (clearPending s) = timeoutRef s"
  "nextTimerId (clearPending s) = nextTimerId s"
  "audioEngine (clearPending s) = audioEngine s"
  by (simp_all add: clearPending_def clearTimeout_def split: option.splits)

lemma clearTimeout_fields:
  "isPlaying (clearTimeout tid s) = isPlaying s"
  "currentFrameIndex (clearTimeout tid s) = currentFrameIndex s"
  "playbackSpeed (clearTimeout tid s) = playbackSpeed s"
  "timeoutRef (clearTimeout tid s) = timeoutRef s"
  "nextTimerId (clearTimeout tid s) = nextTimerId s"
  "audioEngine (clearTimeout tid s) = audioEngine s"
  by (simp_all add: clearTimeout_def)

lemma inv_playFrame:
  assumes "pending s = []" and "nextTimerId s \<noteq> 0" and "isPlaying s \<or> length (frames data) \<le> index"
    and "playFrame data speed index s = Inr s'"
  shows "schedulerInv data s'"
proof (cases "index < length (frames data)")
  case True
  have "playFrame data speed index s = Inr s'" by (rule assms(4))
  then have s': "pending s' = [\<lparr>timer_id = nextTimerId s,
        delay = frameDurationSec data (frames data ! index) speed * 1000,
        cb_index = index, cb_speed = speed\<rparr>]"
      "timeoutRef s' = Some (nextTimerId s)" "nextTimerId s' = nextTimerId s + 1"
      "currentFrameIndex s' = index" "isPlaying s' = isPlaying s"
    unfolding playFrame_arm[OF True] using assms(1) by auto
  show ?thesis
    unfolding schedulerInv_def s' using assms(2,3) True by simp
next
  case False
  then have "s' = s\<lparr>isPlaying := False, currentFrameIndex := 0\<rparr>"
    using assms(4) by (simp add: playFrame_stop)
  then show ?thesis
    using assms(1,2) by (simp add: schedulerInv_def)
qed

lemma inv_mount: "schedulerInv data (mountPlayer c)"
  by (simp add: schedulerInv_def mountPlayer_def)

lemma inv_handlePlayPause:
  assumes "schedulerInv data s" and "handlePlayPause data s = Inr s'"
  shows "schedulerInv data s'"
proof (cases "isPlaying s")
  case True
  let ?s1 = "s\<lparr>isPlaying := False\<rparr>"
  have own: "\<forall>t \<in> set (pending ?s1). timeoutRef ?s1 = Some (timer_id t) \<and> timer_id t \<noteq> 0"
    using assms(1) by (simp add: schedulerInv_def)
  have "s' = clearPending ?s1" using assms(2) True by (simp add: handlePlayPause_def)
  then show ?thesis
    using owned_timers_cleared[OF own] assms(1)
    by (simp add: schedulerInv_def clearPending_fields)
next
  case False
  let ?s1 = "s\<lparr>isPlaying := True\<rparr>"
  have pf: "playFrame data (playbackSpeed s) (currentFrameIndex s) ?s1 = Inr s'"
    using assms(2) False by (simp add: handlePlayPause_def)
  have "pending ?s1 = []" "nextTimerId ?s1 \<noteq> 0" "isPlaying ?s1"
    using assms(1) False by (simp_all add: schedulerInv_def)
  then show ?thesis using pf inv_playFrame by blast
qed

lemma inv_handleStop:
  assumes "schedulerInv data s"
  shows "schedulerInv data (handleStop s)"
proof -
  let ?s1 = "s\<lparr>isPlaying := False, currentFrameIndex := 0\<rparr>"
  have own: "\<forall>t \<in> set (pending ?s1). timeoutRef ?s1 = Some (timer_id t) \<and> timer_id t \<noteq> 0"
    using assms by (simp add: schedulerInv_def)
  show ?thesis
    using owned_timers_cleared[OF own] assms
    by (simp add: schedulerInv_def handleStop_def clearPending_fields)
qed

lemma inv_speed:
  assumes "schedulerInv data s"
  shows "schedulerInv data (speedDown s)" and "schedulerInv data (speedUp s)"
  using assms by (simp_all add: schedulerInv_def speedDown_def speedUp_def)

lemma inv_timerFires:
  assumes "schedulerInv data s" and "timerFires data tid s = Inr s'"
  shows "schedulerInv data s'"
proof (cases "find (\<lambda>t. timer_id t = tid) (pending s)")
  case None
  with assms show ?thesis by (simp add: timerFires_def)
next
  case (Some t)
  let ?s1 = "clearTimeout tid s"
  have own: "\<forall>t \<in> set (pending s). timeoutRef s = Some (timer_id t) \<and> timer_id t \<noteq> 0"
    using assms(1) by (simp add: schedulerInv_def)
  have empty: "pending ?s1 = []" using fired_timer_was_the_only_one[OF own Some] .
  have "pending s \<noteq> []" using Some by (auto simp: find_Some_iff)
  then have playing: "isPlaying ?s1" using assms(1) by (auto simp: schedulerInv_def clearTimeout_fields)
  have next_id: "nextTimerId ?s1 \<noteq> 0" using assms(1) by (simp add: schedulerInv_def clearTimeout_fields)
  have "playFrame data (cb_speed t) (cb_index t + 1) ?s1 = Inr s'"
    using assms(2) Some by (simp add: timerFires_def)
  then show ?thesis using inv_playFrame empty playing next_id by blast
qed

lemma inv_step:
  assumes "schedulerInv data s" and "step data ev s = Inr s'"
  shows "schedulerInv data s'"
proof (cases ev)
  case PlayPause
  then show ?thesis using assms inv_handlePlayPause[of data s s'] by simp
next
  case Stop
  then show ?thesis using assms inv_handleStop[of data s] by auto
next
  case SpeedDown
  then show ?thesis using assms inv_speed(1)[of data s] by auto
next
  case SpeedUp
  then show ?thesis using assms inv_speed(2)[of data s] by auto
next
  case (TimerFires tid)
  then show ?thesis using assms inv_timerFires[of data s tid s'] by simp
qed

lemma reachable_inv: "reachable data s \<Longrightarrow> schedulerInv data s"
proof (induction rule: reachable.induct)
  case (reachable_mount c)
  show ?case by (rule inv_mount)
next
  case (reachable_step s ev s')
  then show ?case using inv_step by blast
qed

lemma step_total: "\<exists>s'. step data ev s = Inr s'"
proof (cases ev)
  case PlayPause
  then show ?thesis by (simp add: handlePlayPause_def playFrame_total)
next
  case (TimerFires tid)
  then show ?thesis by (simp add: timerFires_def playFrame_total split: option.splits)
qed simp_all

lemma run_reachable:
  "reachable data s \<Longrightarrow> run data evs s = Inr s' \<Longrightarrow> reachable data s'"
proof (induction evs arbitrary: s)
  case Nil
  then show ?case by simp
next
  case (Cons ev evs)
  obtain s1 where s1: "step data ev s = Inr s1" using step_total by blast
  then have "reachable data s1" using Cons.prems(1) reachable_step by blast
  moreover have "run data evs s1 = Inr s'" using Cons.prems(2) s1 by simp
  ultimately show ?case using Cons.IH by blast
qed

lemma no_pending_timer_fires_nothing:
  "pending s = [] \<Longrightarrow> run data (map TimerFires tids) s = Inr s"
  by (induction tids) (simp_all add: timerFires_def)

section \<open>The scheduler: pause, end of sequence, speed\<close>

text \<open>
  Claim C1. Pausing a running scheduler returns with no timer pending and with
  \<open>currentFrameIndex\<close> as it was; after that, however many timer handles are tried and
  however long one waits, no callback runs and the state stays the same; and pressing play
  again starts from the same frame.
\<close>

theorem pause_cancels_pending_advance:
  assumes "reachable data s" and "isPlaying s"
  shows "\<exists>s'. handlePlayPause data s = Inr s' \<and> \<not> isPlaying s' \<and> pending s' = [] \<and>
           currentFrameIndex s' = currentFrameIndex s \<and>
           (\<forall>tids. run data (map TimerFires tids) s' = Inr s') \<and>
           (\<exists>s''. handlePlayPause data s' = Inr s'' \<and> isPlaying s'' \<and>
                  currentFrameIndex s'' = currentFrameIndex s)"
proof -
  let ?s1 = "s\<lparr>isPlaying := False\<rparr>"
  let ?s' = "clearPending ?s1"
  have inv: "schedulerInv data s" using assms(1) by (rule reachable_inv)
  have own: "\<forall>t \<in> set (pending ?s1). timeoutRef ?s1 = Some (timer_id t) \<and> timer_id t \<noteq> 0"
    using inv by (simp add: schedulerInv_def)
  have paused: "handlePlayPause data s = Inr ?s'"
    using assms(2) by (simp add: handlePlayPause_def)
  have stopped: "\<not> isPlaying ?s'" by (simp add: clearPending_fields)
  have none: "pending ?s' = []" using own by (rule owned_timers_cleared)
  have same: "currentFrameIndex ?s' = currentFrameIndex s" by (simp add: clearPending_fields)
  have quiet: "\<forall>tids. run data (map TimerFires tids) ?s' = Inr ?s'"
    using none by (simp add: no_pending_timer_fires_nothing)
  have in_range: "currentFrameIndex s < length (frames data)"
    using inv assms(2) by (simp add: schedulerInv_def)
  obtain s'' where again: "handlePlayPause data ?s' = Inr s''"
    using step_total[of data PlayPause ?s'] by auto
  then have pf: "playFrame data (playbackSpeed ?s') (currentFrameIndex s) (?s'\<lparr>isPlaying := True\<rparr>) = Inr s''"
    using stopped same by (simp add: handlePlayPause_def)
  have "isPlaying s'' \<and> currentFrameIndex s'' = currentFrameIndex s"
    using pf unfolding playFrame_arm[OF in_range] by auto
  with again have resume: "\<exists>s''. handlePlayPause data ?s' = Inr s'' \<and> isPlaying s'' \<and>
      currentFrameIndex s'' = currentFrameIndex s" by blast
  from paused stopped none same quiet resume show ?thesis by blast
qed

lemma rest_tokens: "\<not> isRest ''C4''" "isRest ''rest''" "\<not> isRest ''E4''" "\<not> isRest ''G4''"
  by code_simp+

lemma demoPlaying_run:
  "run demoData [PlayPause, TimerFires 1] (mountPlayer demoContext) = Inr demoPlaying"
  by (simp add: handlePlayPause_def timerFires_def playFrame_arm clearTimeout_def
      mountPlayer_def demoData_def demoFrame_def demoPlaying_def demoContext_def
      newAudioEngine_def resume_def playChord_def playTone_def rest_tokens
      frameDurationSec_def beatDurationSec_def)

theorem pause_cancels_pending_advance_witness:
  "reachable demoData demoPlaying \<and> isPlaying demoPlaying \<and>
   (\<exists>s'. handlePlayPause demoData demoPlaying = Inr s' \<and> \<not> isPlaying s' \<and> pending s' = [] \<and>
         currentFrameIndex s' = 1 \<and>
         run demoData [TimerFires 2, TimerFires 2, TimerFires 3] s' = Inr s')"
proof -
  have r: "reachable demoData demoPlaying"
    using run_reachable[OF reachable_mount demoPlaying_run] .
  have p: "isPlaying demoPlaying" by (simp add: demoPlaying_def)
  have i: "currentFrameIndex demoPlaying = 1" by (simp add: demoPlaying_def)
  from pause_cancels_pending_advance[OF r p] obtain s' where
    s': "handlePlayPause demoData demoPlaying = Inr s'" "\<not> isPlaying s'" "pending s' = []"
      "currentFrameIndex s' = currentFrameIndex demoPlaying"
      "\<forall>tids. run demoData (map TimerFires tids) s' = Inr s'"
    by blast
  from s'(5) have "run demoData (map TimerFires [2, 2, 3]) s' = Inr s'" by blast
  then have "run demoData [TimerFires 2, TimerFires 2, TimerFires 3] s' = Inr s'" by simp
  with s' i r p show ?thesis by auto
qed

lemma last_timer_stops:
  assumes "schedulerInv data s"
    and "find (\<lambda>t. timer_id t = tid) (pending s) = Some t"
    and "cb_index t + 1 = length (frames data)"
  shows "timerFires data tid s = Inr ((clearTimeout tid s)\<lparr>isPlaying := False, currentFrameIndex := 0\<rparr>) \<and>
         pending (clearTimeout tid s) = []"
proof -
  have own: "\<forall>t \<in> set (pending s). timeoutRef s = Some (timer_id t) \<and> timer_id t \<noteq> 0"
    using assms(1) by (simp add: schedulerInv_def)
  have "pending (clearTimeout tid s) = []"
    using fired_timer_was_the_only_one[OF own assms(2)] .
  moreover have "timerFires data tid s =
      Inr ((clearTimeout tid s)\<lparr>isPlaying := False, currentFrameIndex := 0\<rparr>)"
    using assms(2,3) by (simp add: timerFires_def playFrame_stop)
  ultimately show ?thesis by simp
qed

lemma ticks_to_the_end:
  assumes "pending s = [t]" and "nextTimerId s = Suc (timer_id t)"
    and "cb_index t + Suc k = length (frames data)"
  shows "\<exists>s'. run data (map TimerFires [timer_id t ..< timer_id t + Suc k]) s = Inr s' \<and>
              \<not> isPlaying s' \<and> currentFrameIndex s' = 0 \<and> pending s' = []"
  using assms
proof (induction k arbitrary: s t)
  case 0
  have f: "find (\<lambda>u. timer_id u = timer_id t) (pending s) = Some t"
    using "0.prems"(1) by simp
  have c: "pending (clearTimeout (timer_id t) s) = []"
    using "0.prems"(1) by (simp add: clearTimeout_def)
  have "timerFires data (timer_id t) s =
      Inr ((clearTimeout (timer_id t) s)\<lparr>isPlaying := False, currentFrameIndex := 0\<rparr>)"
    using f "0.prems"(3) by (simp add: timerFires_def playFrame_stop)
  then show ?case using c by simp
next
  case (Suc k)
  let ?tid = "timer_id t"
  let ?i = "cb_index t + 1"
  let ?c = "clearTimeout ?tid s"
  have f: "find (\<lambda>u. timer_id u = ?tid) (pending s) = Some t"
    using Suc.prems(1) by simp
  have c: "pending ?c = []" "nextTimerId ?c = Suc ?tid"
    using Suc.prems(1,2) by (simp_all add: clearTimeout_def)
  have lt: "?i < length (frames data)" using Suc.prems(3) by simp
  obtain s1 where s1: "playFrame data (cb_speed t) ?i ?c = Inr s1"
    using playFrame_total by blast
  then have fire: "timerFires data ?tid s = Inr s1"
    using f by (simp add: timerFires_def)
  define t1 where "t1 = \<lparr>timer_id = Suc ?tid,
      delay = frameDurationSec data (frames data ! ?i) (cb_speed t) * 1000,
      cb_index = ?i, cb_speed = cb_speed t\<rparr>"
  have p1: "pending s1 = [t1]" "nextTimerId s1 = Suc (timer_id t1)"
    using s1 c unfolding playFrame_arm[OF lt] t1_def by auto
  have i1: "cb_index t1 + Suc k = length (frames data)"
    using Suc.prems(3) by (simp add: t1_def)
  from Suc.IH[OF p1 i1] obtain s' where
    s': "run data (map TimerFires [timer_id t1 ..< timer_id t1 + Suc k]) s1 = Inr s'"
      "\<not> isPlaying s'" "currentFrameIndex s' = 0" "pending s' = []"
    by blast
  define later where "later = [timer_id t1 ..< timer_id t1 + Suc k]"
  have "[?tid ..< ?tid + Suc (Suc k)] = ?tid # [Suc ?tid ..< ?tid + Suc (Suc k)]"
    by (rule upt_conv_Cons) simp
  moreover have "[Suc ?tid ..< ?tid + Suc (Suc k)] = later"
    by (simp add: later_def t1_def)
  ultimately have split: "[?tid ..< ?tid + Suc (Suc k)] = ?tid # later" by simp
  have "run data (map TimerFires (?tid # later)) s = run data (map TimerFires later) s1"
    using fire by simp
  then have "run data (map TimerFires [?tid ..< ?tid + Suc (Suc k)]) s = Inr s'"
    using s'(1) unfolding split later_def by simp
  with s'(2,3,4) show ?case by blast
qed

lemma play_from_mount:
  assumes "frames data \<noteq> []"
  shows "\<exists>s1 t. handlePlayPause data (mountPlayer c) = Inr s1 \<and> pending s1 = [t] \<and>
                timer_id t = 1 \<and> cb_index t = 0 \<and> nextTimerId s1 = 2"
proof -
  have lt: "0 < length (frames data)" using assms by simp
  show ?thesis
    by (simp add: handlePlayPause_def mountPlayer_def playFrame_arm[OF lt])
qed

text \<open>
  Claim C4. For a non-empty frame sequence: \<open>playFrame\<close> called with the frame count
  stops (not playing, index 0) and arms nothing; no call of \<open>playFrame\<close>, at any index,
  reads a frame outside the sequence (the \<open>TypeError\<close> branch is never taken); when the
  timer of the last frame fires in a reachable state the player ends stopped at index 0
  with no timer pending; and playing the whole sequence from the mount, one tick per
  frame, ends there.
\<close>

theorem last_frame_auto_stop:
  assumes "frames data \<noteq> []"
  shows "playFrame data speed (length (frames data)) s
           = Inr (s\<lparr>isPlaying := False, currentFrameIndex := 0\<rparr>) \<and>
         (\<exists>s'. playFrame data speed index s = Inr s') \<and>
         (reachable data s \<and> find (\<lambda>t. timer_id t = tid) (pending s) = Some t \<and>
          cb_index t + 1 = length (frames data) \<longrightarrow>
            (\<exists>s'. timerFires data tid s = Inr s' \<and> \<not> isPlaying s' \<and>
                  currentFrameIndex s' = 0 \<and> pending s' = [])) \<and>
         (\<exists>s'. run data (PlayPause # map TimerFires [1 ..< 1 + length (frames data)]) (mountPlayer c)
                  = Inr s' \<and>
               \<not> isPlaying s' \<and> currentFrameIndex s' = 0 \<and> pending s' = [])"
proof (intro conjI impI)
  show "playFrame data speed (length (frames data)) s
      = Inr (s\<lparr>isPlaying := False, currentFrameIndex := 0\<rparr>)"
    by (simp add: playFrame_stop)
  show "\<exists>s'. playFrame data speed index s = Inr s'"
    by (rule playFrame_total)
next
  assume a: "reachable data s \<and> find (\<lambda>t. timer_id t = tid) (pending s) = Some t \<and>
      cb_index t + 1 = length (frames data)"
  then have "schedulerInv data s" by (simp add: reachable_inv)
  from last_timer_stops[OF this] a
  show "\<exists>s'. timerFires data tid s = Inr s' \<and> \<not> isPlaying s' \<and>
      currentFrameIndex s' = 0 \<and> pending s' = []"
    by (simp add: clearTimeout_fields)
next
  obtain s1 t where s1: "handlePlayPause data (mountPlayer c) = Inr s1" "pending s1 = [t]"
      "timer_id t = 1" "cb_index t = 0" "nextTimerId s1 = 2"
    using play_from_mount[OF assms] by blast
  obtain k where k: "length (frames data) = Suc k"
    using assms by (cases "frames data") auto
  have "nextTimerId s1 = Suc (timer_id t)" "cb_index t + Suc k = length (frames data)"
    using s1 k by simp_all
  from ticks_to_the_end[OF s1(2) this] obtain s' where
    s': "run data (map TimerFires [timer_id t ..< timer_id t + Suc k]) s1 = Inr s'"
      "\<not> isPlaying s'" "currentFrameIndex s' = 0" "pending s' = []"
    by blast
  have "run data (PlayPause # map TimerFires [1 ..< 1 + length (frames data)]) (mountPlayer c) = Inr s'"
    using s1(1,3) s'(1) k by simp
  with s'(2,3,4)
  show "\<exists>s'. run data (PlayPause # map TimerFires [1 ..< 1 + length (frames data)]) (mountPlayer c)
      = Inr s' \<and> \<not> isPlaying s' \<and> currentFrameIndex s' = 0 \<and> pending s' = []"
    by blast
qed

lemma demoLastFrame_run:
  "run demoData [TimerFires 2] demoPlaying = Inr demoLastFrame"
  by (simp add: timerFires_def playFrame_arm clearTimeout_def
      demoData_def demoFrame_def demoPlaying_def demoLastFrame_def demoContext_def
      resume_def playChord_def playTone_def rest_tokens
      frameDurationSec_def beatDurationSec_def)

theorem last_frame_auto_stop_witness:
  "frames demoData \<noteq> [] \<and>
   playFrame demoData 1 3 demoLastFrame
     = Inr (demoLastFrame\<lparr>isPlaying := False, currentFrameIndex := 0\<rparr>) \<and>
   reachable demoData demoLastFrame \<and>
   find (\<lambda>t. timer_id t = 3) (pending demoLastFrame)
     = Some \<lparr>timer_id = 3, delay = 1000, cb_index = 2, cb_speed = 1\<rparr> \<and>
   (\<exists>s'. timerFires demoData 3 demoLastFrame = Inr s' \<and> \<not> isPlaying s' \<and>
         currentFrameIndex s' = 0 \<and> pending s' = []) \<and>
   (\<exists>s'. run demoData [PlayPause, TimerFires 1, TimerFires 2, TimerFires 3] (mountPlayer demoContext)
            = Inr s' \<and>
         \<not> isPlaying s' \<and> currentFrameIndex s' = 0 \<and> pending s' = [])"
proof -
  let ?t = "\<lparr>timer_id = 3, delay = 1000, cb_index = 2, cb_speed = 1\<rparr>"
  have ne: "frames demoData \<noteq> []" and len: "length (frames demoData) = 3"
    by (simp_all add: demoData_def)
  have r: "reachable demoData demoLastFrame"
    using run_reachable[OF run_reachable[OF reachable_mount demoPlaying_run] demoLastFrame_run] .
  have f: "find (\<lambda>t. timer_id t = 3) (pending demoLastFrame) = Some ?t"
    by (simp add: demoLastFrame_def)
  have i: "cb_index ?t + 1 = length (frames demoData)" by (simp add: len)
  have u: "PlayPause # map TimerFires [1 ..< 1 + length (frames demoData)]
      = [PlayPause, TimerFires 1, TimerFires 2, TimerFires 3]"
    unfolding len by code_simp
  note main = last_frame_auto_stop[OF ne, of 1 demoLastFrame 0 3 ?t demoContext]
  from main have a: "playFrame demoData 1 3 demoLastFrame
      = Inr (demoLastFrame\<lparr>isPlaying := False, currentFrameIndex := 0\<rparr>)"
    unfolding len by blast
  from main r f i have b: "\<exists>s'. timerFires demoData 3 demoLastFrame = Inr s' \<and> \<not> isPlaying s' \<and>
      currentFrameIndex s' = 0 \<and> pending s' = []"
    by blast
  from main have c: "\<exists>s'. run demoData [PlayPause, TimerFires 1, TimerFires 2, TimerFires 3]
      (mountPlayer demoContext) = Inr s' \<and>
      \<not> isPlaying s' \<and> currentFrameIndex s' = 0 \<and> pending s' = []"
    unfolding u by blast
  from ne a r f b c show ?thesis by blast
qed

text \<open>
  Claim C7, evaluated on the code. The callback of the advance timer calls the
  \<open>playFrame\<close> of the render in which playback was started, so a speed change made while
  playing is not read by the next tick. In the scenario, after play and one press of the
  speed-up button (speed 1.25) the armed timer keeps its 500 ms; the first tick then arms
  the timer of the second frame with the delay of speed 1 (250 ms), not the 200 ms of the
  new speed; only pausing and playing again arms a timer at the new speed (400 ms for the
  first frame).
\<close>

theorem speed_change_missed_by_next_tick:
  "armedDelays (run demoData [PlayPause, SpeedUp] (mountPlayer demoContext)) = [500] \<and>
   map_option playbackSpeed
     (resultState (run demoData [PlayPause, SpeedUp, TimerFires 1] (mountPlayer demoContext)))
     = Some 1.25 \<and>
   armedDelays (run demoData [PlayPause, SpeedUp, TimerFires 1] (mountPlayer demoContext)) = [250] \<and>
   frameDurationSec demoData (frames demoData ! 1) 1.25 * 1000 = 200 \<and>
   armedDelays (run demoData [PlayPause, SpeedUp, PlayPause, PlayPause] (mountPlayer demoContext))
     = [400]"
  by (simp add: handlePlayPause_def timerFires_def playFrame_arm clearTimeout_def speedUp_def
      clearPending_def mountPlayer_def demoData_def demoFrame_def resultState_def armedDelays_def
      frameDurationSec_def beatDurationSec_def)

section \<open>Ingestion\<close>

lemma analyzeSheetMusic_Inr_iff:
  "analyzeSheetMusic apiKey now response = Inr result \<longleftrightarrow>
     apiKey \<and> (\<exists>parsed fs. response = Json parsed \<and> json_frames parsed = Some fs \<and>
                result = \<lparr>tempo = json_tempo parsed, frames = assignIds now fs\<rparr>)"
  by (cases response) (auto simp: analyzeSheetMusic_def split: option.splits)

lemma analyzeSheetMusic_Inl_iff:
  "(\<exists>e. analyzeSheetMusic apiKey now response = Inl e) \<longleftrightarrow>
     \<not> apiKey \<or> response = RequestFailed \<or> response = NoText \<or> response = Malformed \<or>
     (\<exists>parsed. response = Json parsed \<and> json_frames parsed = None)"
  by (cases response) (auto simp: analyzeSheetMusic_def split: option.splits)

lemma length_assignIds: "length (assignIds now fs) = length fs"
  by (simp add: assignIds_def)

text \<open>
  Claim C2, as stated, fails: nothing on the ingestion path looks at the number of
  frames or at the tempo. A parsed response with no frames and tempo 0 is returned as a
  result, and \<open>App\<close> mounts the player on it.
\<close>

theorem empty_frames_zero_tempo_accepted:
  "analyzeSheetMusic True 0 (Json emptyZeroTempoJson) = Inr \<lparr>tempo = 0, frames = []\<rparr> \<and>
   playerMounted (handleFilesSelect initialApp (Some [''page'']) True 0 (Json emptyZeroTempoJson))"
  by (simp add: analyzeSheetMusic_def emptyZeroTempoJson_def assignIds_def handleFilesSelect_def
      initialApp_def playerMounted_def)

text \<open>
  Claim C2, amended. Loading fails, with the error surfaced as status \<open>ERROR\<close> and no
  player mounted, exactly when the API key is missing, the request fails, the response
  has no text, the text is not JSON, or the parsed object has no \<open>frames\<close> array. Every
  parsed response that has a \<open>frames\<close> array is accepted without validation, whatever its
  tempo and also when the array is empty: the player is mounted on it and starts not
  playing at index 0.
\<close>

theorem load_fails_only_on_missing_shape:
  "((\<exists>e. analyzeSheetMusic apiKey now response = Inl e) \<longleftrightarrow>
      \<not> apiKey \<or> response = RequestFailed \<or> response = NoText \<or> response = Malformed \<or>
      (\<exists>parsed. response = Json parsed \<and> json_frames parsed = None)) \<and>
   (analyzeSheetMusic apiKey now response = Inl e \<longrightarrow>
      status (handleFilesSelect app (Some srcs) apiKey now response) = ERROR \<and>
      \<not> playerMounted (handleFilesSelect app (Some srcs) apiKey now response) \<and>
      sheetData (handleFilesSelect app (Some srcs) apiKey now response) = sheetData app) \<and>
   (apiKey \<and> response = Json parsed \<and> json_frames parsed = Some fs \<and> srcs \<noteq> [] \<longrightarrow>
      status (handleFilesSelect app (Some srcs) apiKey now response) = READY \<and>
      playerMounted (handleFilesSelect app (Some srcs) apiKey now response) \<and>
      sheetData (handleFilesSelect app (Some srcs) apiKey now response)
        = Some \<lparr>tempo = json_tempo parsed, frames = assignIds now fs\<rparr> \<and>
      length (assignIds now fs) = length fs \<and>
      currentFrameIndex (mountPlayer c) = 0 \<and> \<not> isPlaying (mountPlayer c))"
proof (intro conjI impI)
  show "(\<exists>e. analyzeSheetMusic apiKey now response = Inl e) \<longleftrightarrow>
      \<not> apiKey \<or> response = RequestFailed \<or> response = NoText \<or> response = Malformed \<or>
      (\<exists>parsed. response = Json parsed \<and> json_frames parsed = None)"
    by (rule analyzeSheetMusic_Inl_iff)
next
  assume "analyzeSheetMusic apiKey now response = Inl e"
  then show "status (handleFilesSelect app (Some srcs) apiKey now response) = ERROR"
    "\<not> playerMounted (handleFilesSelect app (Some srcs) apiKey now response)"
    "sheetData (handleFilesSelect app (Some srcs) apiKey now response) = sheetData app"
    by (simp_all add: handleFilesSelect_def playerMounted_def)
next
  assume a: "apiKey \<and> response = Json parsed \<and> json_frames parsed = Some fs \<and> srcs \<noteq> []"
  then have r: "analyzeSheetMusic apiKey now response
      = Inr \<lparr>tempo = json_tempo parsed, frames = assignIds now fs\<rparr>"
    by (simp add: analyzeSheetMusic_def)
  show "status (handleFilesSelect app (Some srcs) apiKey now response) = READY"
    "playerMounted (handleFilesSelect app (Some srcs) apiKey now response)"
    "sheetData (handleFilesSelect app (Some srcs) apiKey now response)
        = Some \<lparr>tempo = json_tempo parsed, frames = assignIds now fs\<rparr>"
    using a r by (simp_all add: handleFilesSelect_def playerMounted_def)
  show "length (assignIds now fs) = length fs" by (rule length_assignIds)
  show "currentFrameIndex (mountPlayer c) = 0" "\<not> isPlaying (mountPlayer c)"
    by (simp_all add: mountPlayer_def)
qed

theorem load_fails_only_on_missing_shape_witness:
  "analyzeSheetMusic True 7 NoText = Inl NoResponseFromAI \<and>
   status (handleFilesSelect initialApp (Some [''page'']) True 7 NoText) = ERROR \<and>
   \<not> playerMounted (handleFilesSelect initialApp (Some [''page'']) True 7 NoText) \<and>
   json_frames emptyZeroTempoJson = Some [] \<and>
   status (handleFilesSelect initialApp (Some [''page'']) True 7 (Json emptyZeroTempoJson)) = READY \<and>
   playerMounted (handleFilesSelect initialApp (Some [''page'']) True 7 (Json emptyZeroTempoJson))"
proof -
  have n: "analyzeSheetMusic True 7 NoText = Inl NoResponseFromAI"
    by (simp add: analyzeSheetMusic_def)
  have j: "json_frames emptyZeroTempoJson = Some []" by (simp add: emptyZeroTempoJson_def)
  have s: "[''page''] \<noteq> []" by simp
  from load_fails_only_on_missing_shape[of True 7 NoText NoResponseFromAI initialApp "[''page'']"] n
  have a: "status (handleFilesSelect initialApp (Some [''page'']) True 7 NoText) = ERROR \<and>
      \<not> playerMounted (handleFilesSelect initialApp (Some [''page'']) True 7 NoText)"
    by blast
  from load_fails_only_on_missing_shape[of True 7 "Json emptyZeroTempoJson" _ initialApp
      "[''page'']" emptyZeroTempoJson "[]"] j s
  have b: "status (handleFilesSelect initialApp (Some [''page'']) True 7 (Json emptyZeroTempoJson)) = READY \<and>
      playerMounted (handleFilesSelect initialApp (Some [''page'']) True 7 (Json emptyZeroTempoJson))"
    by blast
  from n a j b show ?thesis by blast
qed

section \<open>The view renderer\<close>







end
